theory Spec2Isabelle
  imports Main "HOL-Library.Sublist"
begin

section \<open>The hook registry and dispatcher of lib/hooks.js\<close>

text \<open>
  A shallow embedding of \<^verbatim>\<open>src/lib/hooks.js\<close>: the static catalog \<^verbatim>\<open>hookTypes\<close>,
  the helpers \<^verbatim>\<open>getProxiedHooks\<close> and \<^verbatim>\<open>getHooks\<close>, and the methods of the
  \<^verbatim>\<open>Hooks\<close> mixin (\<^verbatim>\<open>_setupHooks\<close>, \<^verbatim>\<open>runHooks\<close>, \<^verbatim>\<open>addHook\<close>,
  \<^verbatim>\<open>removeHook\<close>, \<^verbatim>\<open>hasHook\<close>).

  Conventions of the embedding.
  \<^item> A JavaScript function object is a \<open>fn_ref\<close>: only its identity matters to the
    registry (\<^verbatim>\<open>hook !== name\<close>); what it does when called is given by a separate
    table of callbacks.
  \<^item> A method that mutates \<^verbatim>\<open>this\<close> takes the host and returns the pair of its
    completion (\<open>Inl\<close> a thrown error, \<open>Inr\<close> a normal return) and the host as the
    call leaves it, so that the state after a throw is part of the model.
  \<^item> A plain object used as a dictionary (\<^verbatim>\<open>hookTypes\<close>, \<^verbatim>\<open>options.hooks\<close>) is a map
    from key to value. The lookup \<^verbatim>\<open>obj[key]\<close> of JavaScript also finds the members
    that every plain object inherits from \<^verbatim>\<open>Object.prototype\<close>; the map lookup is
    the JavaScript lookup for every key that is not the name of such a member (see
    \<open>inheritedKey\<close>; no name of the catalog is one).
  \<^item> The arrays stored under different keys of one \<^verbatim>\<open>options.hooks\<close> are different
    objects, and a host and its parent do not share a store, as is the case for every
    store built by \<^verbatim>\<open>_setupHooks\<close> and \<^verbatim>\<open>addHook\<close>.
\<close>

subsection \<open>Errors\<close>

text \<open>
  \<open>Error msg\<close> is \<^verbatim>\<open>new Error(msg)\<close>; \<open>TypeError\<close> is the error the JavaScript
  engine raises when a property of \<^verbatim>\<open>undefined\<close> is read or written. A callback
  may throw or reject with any value of this type.
\<close>

datatype error = Error string | TypeError

subsection \<open>The catalog \<^verbatim>\<open>hookTypes\<close>\<close>

text \<open>
  One descriptor per known hook type. A property that the object literal leaves out is
  \<^verbatim>\<open>undefined\<close>: \<open>None\<close> for \<open>proxies\<close>, \<open>False\<close> for the flags \<open>sync\<close>
  and \<open>noModel\<close>, which the code only tests for truthiness.
\<close>

record descriptor =
  params :: nat
  proxies :: "string list option"
  sync :: bool
  noModel :: bool

definition desc :: "nat \<Rightarrow> descriptor" where
  "desc n = \<lparr>params = n, proxies = None, sync = False, noModel = False\<rparr>"

definition hookTypes_table :: "(string \<times> descriptor) list" where
  "hookTypes_table =
   [(''beforeValidate'', desc 2),
    (''afterValidate'', desc 2),
    (''validationFailed'', desc 3),
    (''beforeCreate'', desc 2),
    (''afterCreate'', desc 2),
    (''beforeDestroy'', desc 2),
    (''afterDestroy'', desc 2),
    (''beforeRestore'', desc 2),
    (''afterRestore'', desc 2),
    (''beforeUpdate'', desc 2),
    (''afterUpdate'', desc 2),
    (''beforeSave'', (desc 2)\<lparr>proxies := Some [''beforeUpdate'', ''beforeCreate'']\<rparr>),
    (''afterSave'', (desc 2)\<lparr>proxies := Some [''afterUpdate'', ''afterCreate'']\<rparr>),
    (''beforeUpsert'', desc 2),
    (''afterUpsert'', desc 2),
    (''beforeBulkCreate'', desc 2),
    (''afterBulkCreate'', desc 2),
    (''beforeBulkDestroy'', desc 1),
    (''afterBulkDestroy'', desc 1),
    (''beforeBulkRestore'', desc 1),
    (''afterBulkRestore'', desc 1),
    (''beforeBulkUpdate'', desc 1),
    (''afterBulkUpdate'', desc 1),
    (''beforeFind'', desc 1),
    (''beforeFindAfterExpandIncludeAll'', desc 1),
    (''beforeFindAfterOptions'', desc 1),
    (''afterFind'', desc 2),
    (''beforeCount'', desc 1),
    (''beforeDefine'', (desc 2)\<lparr>sync := True, noModel := True\<rparr>),
    (''afterDefine'', (desc 1)\<lparr>sync := True, noModel := True\<rparr>),
    (''beforeInit'', (desc 2)\<lparr>sync := True, noModel := True\<rparr>),
    (''afterInit'', (desc 1)\<lparr>sync := True, noModel := True\<rparr>),
    (''beforeAssociate'', (desc 2)\<lparr>sync := True\<rparr>),
    (''afterAssociate'', (desc 2)\<lparr>sync := True\<rparr>),
    (''beforeConnect'', (desc 1)\<lparr>noModel := True\<rparr>),
    (''afterConnect'', (desc 2)\<lparr>noModel := True\<rparr>),
    (''beforeSync'', desc 1),
    (''afterSync'', desc 1),
    (''beforeBulkSync'', (desc 1)\<lparr>noModel := True\<rparr>),
    (''afterBulkSync'', (desc 1)\<lparr>noModel := True\<rparr>)]"

text \<open>\<^verbatim>\<open>hookTypes[hookType]\<close>: \<open>None\<close> is \<^verbatim>\<open>undefined\<close>.\<close>

definition hookTypes :: "string \<Rightarrow> descriptor option" where
  "hookTypes hookType = map_of hookTypes_table hookType"

text \<open>
  The member names of \<^verbatim>\<open>Object.prototype\<close>. For these keys \<^verbatim>\<open>obj[key]\<close> is an
  inherited function or object, not \<^verbatim>\<open>undefined\<close>, on a plain object that has no
  such key of its own; the maps of this theory do not describe that.
\<close>

definition inheritedKey :: "string \<Rightarrow> bool" where
  "inheritedKey k \<longleftrightarrow> k \<in> set
     [''constructor'', ''hasOwnProperty'', ''isPrototypeOf'', ''propertyIsEnumerable'',
      ''toLocaleString'', ''toString'', ''valueOf'', ''__proto__'',
      ''__defineGetter__'', ''__defineSetter__'', ''__lookupGetter__'',
      ''__lookupSetter__'']"

subsection \<open>Hook entries, stores and hosts\<close>

type_synonym fn_ref = nat

text \<open>
  A hook entry is what \<^verbatim>\<open>addHook\<close> pushes: the function itself
  (\<^verbatim>\<open>typeof hook === 'function'\<close>) or the object \<^verbatim>\<open>{ name, fn }\<close>
  (\<^verbatim>\<open>typeof hook === 'object'\<close>).
\<close>

datatype hook = Bare fn_ref | Named string fn_ref

type_synonym store = "string \<rightharpoonup> hook list"

text \<open>
  A host is any object the mixin is applied to. \<open>options_hooks\<close> is \<^verbatim>\<open>this.options.hooks\<close>
  (\<open>None\<close> while it is \<^verbatim>\<open>undefined\<close>), \<open>sequelize\<close> is \<^verbatim>\<open>this.sequelize\<close>, the
  parent host (\<open>None\<close> when the property is absent).
\<close>

datatype host = Host (options_hooks: "store option") (sequelize: "host option")

definition set_hooks :: "host \<Rightarrow> store \<Rightarrow> host" where
  "set_hooks this st = Host (Some st) (sequelize this)"

subsection \<open>\<^verbatim>\<open>getProxiedHooks\<close> and \<^verbatim>\<open>getHooks\<close>\<close>

text \<open>
  \<^verbatim>\<open>hookTypes[hookType].proxies ? hookTypes[hookType].proxies.concat(hookType) : [hookType]\<close>.
  Reading \<^verbatim>\<open>.proxies\<close> of \<^verbatim>\<open>undefined\<close> throws a TypeError.
\<close>

definition getProxiedHooks :: "string \<Rightarrow> error + string list" where
  "getProxiedHooks hookType =
     (case hookTypes hookType of
        None \<Rightarrow> Inl TypeError
      | Some d \<Rightarrow>
          (case proxies d of
             Some ps \<Rightarrow> Inr (ps @ [hookType])
           | None \<Rightarrow> Inr [hookType]))"

text \<open>\<^verbatim>\<open>(hooked.options.hooks || {})[hookType] || []\<close>.\<close>

definition getHooks :: "host \<Rightarrow> string \<Rightarrow> hook list" where
  "getHooks hooked hookType =
     (case (case options_hooks hooked of None \<Rightarrow> Map.empty | Some st \<Rightarrow> st) hookType of
        None \<Rightarrow> []
      | Some hs \<Rightarrow> hs)"

subsection \<open>\<^verbatim>\<open>hasHook\<close>\<close>

text \<open>
  \<^verbatim>\<open>this.options.hooks[hookType] && !!this.options.hooks[hookType].length\<close>: the
  result is \<^verbatim>\<open>undefined\<close> when the store has no list for the type, and the boolean
  \<^verbatim>\<open>length !== 0\<close> otherwise. Indexing an \<^verbatim>\<open>undefined\<close> store throws.
\<close>

datatype js_bool = JSUndefined | JSBool bool

fun truthy :: "js_bool \<Rightarrow> bool" where
  "truthy JSUndefined = False"
| "truthy (JSBool b) = b"

definition hasHook :: "host \<Rightarrow> string \<Rightarrow> error + js_bool" where
  "hasHook this hookType =
     (case options_hooks this of
        None \<Rightarrow> Inl TypeError
      | Some st \<Rightarrow>
          (case st hookType of
             None \<Rightarrow> Inr JSUndefined
           | Some hs \<Rightarrow> Inr (JSBool (length hs \<noteq> 0))))"

subsection \<open>\<^verbatim>\<open>addHook\<close>\<close>

text \<open>
  The optional \<^verbatim>\<open>name\<close>: \<open>None\<close> is the call \<^verbatim>\<open>addHook(hookType, fn)\<close>, where the
  code sets \<^verbatim>\<open>name = null\<close>; \<open>Some n\<close> is \<^verbatim>\<open>addHook(hookType, n, fn)\<close> with a
  string \<open>n\<close>. The pushed entry is \<^verbatim>\<open>name ? { name, fn } : fn\<close>, and the empty string
  is falsy.
\<close>

definition entry :: "string option \<Rightarrow> fn_ref \<Rightarrow> hook" where
  "entry name fn =
     (case name of
        None \<Rightarrow> Bare fn
      | Some n \<Rightarrow> if n = [] then Bare fn else Named n fn)"

text \<open>
  The body of \<^verbatim>\<open>hookType.forEach(type => ...)\<close> in \<^verbatim>\<open>addHook\<close>, for the resolved
  types in order: \<^verbatim>\<open>hooks = getHooks(this, type); hooks.push(e);
  this.options.hooks[type] = hooks\<close>. The assignment throws when the store is
  \<^verbatim>\<open>undefined\<close>; the array pushed to was a fresh one then.
\<close>

fun push_each :: "hook \<Rightarrow> string list \<Rightarrow> host \<Rightarrow> (error + unit) \<times> host" where
  "push_each e [] this = (Inr (), this)"
| "push_each e (type # types) this =
     (let hs = getHooks this type @ [e] in
      case options_hooks this of
        None \<Rightarrow> (Inl TypeError, this)
      | Some st \<Rightarrow> push_each e types (set_hooks this (st(type \<mapsto> hs))))"

definition restricted_msg :: "string \<Rightarrow> string" where
  "restricted_msg hookType =
     hookType @ '' is only applicable on a sequelize instance or static''"

definition addHook :: "host \<Rightarrow> string \<Rightarrow> string option \<Rightarrow> fn_ref \<Rightarrow> (error + unit) \<times> host" where
  "addHook this hookType name fn =
     (if (case hookTypes hookType of None \<Rightarrow> False | Some d \<Rightarrow> noModel d)
         \<and> sequelize this \<noteq> None
      then (Inl (Error (restricted_msg hookType)), this)
      else
        (case getProxiedHooks hookType of
           Inl err \<Rightarrow> (Inl err, this)
         | Inr types \<Rightarrow> push_each (entry name fn) types this))"

subsection \<open>\<^verbatim>\<open>removeHook\<close>\<close>

text \<open>
  The removal key: a function reference (\<^verbatim>\<open>typeof name === 'function'\<close>) or a name.
\<close>

datatype key = ByRef fn_ref | ByName string

text \<open>The predicate given to \<^verbatim>\<open>filter\<close>: the entries it keeps.\<close>

fun keep :: "key \<Rightarrow> hook \<Rightarrow> bool" where
  "keep (ByRef f) (Bare g) = (g \<noteq> f)"
| "keep (ByName n) (Named m g) = (m \<noteq> n)"
| "keep k h = True"

text \<open>
  The loop \<^verbatim>\<open>for (const type of hookType)\<close> of \<^verbatim>\<open>removeHook\<close>:
  \<^verbatim>\<open>this.options.hooks[type] = this.options.hooks[type].filter(...)\<close>, which throws
  when the store has no list for \<^verbatim>\<open>type\<close>, after the lists of the earlier types
  have been replaced.
\<close>

fun filter_each :: "key \<Rightarrow> string list \<Rightarrow> host \<Rightarrow> (error + unit) \<times> host" where
  "filter_each k [] this = (Inr (), this)"
| "filter_each k (type # types) this =
     (case options_hooks this of
        None \<Rightarrow> (Inl TypeError, this)
      | Some st \<Rightarrow>
          (case st type of
             None \<Rightarrow> (Inl TypeError, this)
           | Some hs \<Rightarrow> filter_each k types (set_hooks this (st(type \<mapsto> filter (keep k) hs)))))"

definition removeHook :: "host \<Rightarrow> string \<Rightarrow> key \<Rightarrow> (error + unit) \<times> host" where
  "removeHook this hookType name =
     (case hasHook this hookType of
        Inl err \<Rightarrow> (Inl err, this)
      | Inr b \<Rightarrow>
          if \<not> truthy b then (Inr (), this)
          else
            (case getProxiedHooks hookType of
               Inl err \<Rightarrow> (Inl err, this)
             | Inr types \<Rightarrow> filter_each name types this))"

subsection \<open>\<^verbatim>\<open>_setupHooks\<close>\<close>

text \<open>
  The user supplied hooks definition: the own properties of the object in iteration
  order, each holding one function or an array of functions. The list \<open>[]\<close> is the
  object \<^verbatim>\<open>{}\<close>, which is also the default of the parameter.
\<close>

datatype hooks_definition = Single fn_ref | Several "fn_ref list"

text \<open>\<^verbatim>\<open>if (!Array.isArray(hooksArray)) hooksArray = [hooksArray]\<close>.\<close>

fun hooksArray :: "hooks_definition \<Rightarrow> fn_ref list" where
  "hooksArray (Single f) = [f]"
| "hooksArray (Several fs) = fs"

text \<open>
  \<^verbatim>\<open>hooksArray.forEach(hookFn => this.addHook(hookName, hookFn))\<close>: the two-argument
  form of \<^verbatim>\<open>addHook\<close>; a throw ends the iteration with the hooks added so far in
  place.
\<close>

fun addHook_forEach :: "string \<Rightarrow> fn_ref list \<Rightarrow> host \<Rightarrow> (error + unit) \<times> host" where
  "addHook_forEach hookName [] this = (Inr (), this)"
| "addHook_forEach hookName (hookFn # fs) this =
     (case addHook this hookName None hookFn of
        (Inl err, this') \<Rightarrow> (Inl err, this')
      | (Inr u, this') \<Rightarrow> addHook_forEach hookName fs this')"

text \<open>\<^verbatim>\<open>_.map(hooks, (hooksArray, hookName) => ...)\<close>.\<close>

fun setup_each :: "(string \<times> hooks_definition) list \<Rightarrow> host \<Rightarrow> (error + unit) \<times> host" where
  "setup_each [] this = (Inr (), this)"
| "setup_each ((hookName, v) # rest) this =
     (case addHook_forEach hookName (hooksArray v) this of
        (Inl err, this') \<Rightarrow> (Inl err, this')
      | (Inr u, this') \<Rightarrow> setup_each rest this')"

text \<open>\<^verbatim>\<open>this.options.hooks = {}\<close>, then the registrations.\<close>

definition setupHooks :: "host \<Rightarrow> (string \<times> hooks_definition) list \<Rightarrow> (error + unit) \<times> host" where
  "setupHooks this hooks = setup_each hooks (set_hooks this Map.empty)"

subsection \<open>Callbacks and the state of a dispatch\<close>

text \<open>
  What a call \<^verbatim>\<open>hook.apply(this, hookArgs)\<close> can do: return a value that is not a
  promise, throw, or return a promise that is fulfilled, is rejected, or never settles.
\<close>

datatype outcome = Returns | Throws error | Resolves | Rejects error | NeverSettles

text \<open>
  The behaviour of the registered functions is a parameter of the dispatcher: called on a
  receiver with arguments in a state \<open>'w\<close> of the program, a function has an outcome and
  leaves a new state. The functions do not add or remove hooks of the list being run.
\<close>

type_synonym ('a, 'w) callbacks = "fn_ref \<Rightarrow> host \<Rightarrow> 'a list \<Rightarrow> 'w \<Rightarrow> outcome \<times> 'w"

text \<open>
  The state of a dispatch: the calls made so far, oldest first, each with the function, its
  receiver and its arguments, and the state of the program.
\<close>

datatype ('a, 'w) run_state =
  RunState (invoked: "(fn_ref \<times> host \<times> 'a list) list") (world: 'w)

text \<open>\<^verbatim>\<open>if (typeof hook === 'object') { hook = hook.fn; }\<close>.\<close>

fun callback :: "hook \<Rightarrow> fn_ref" where
  "callback (Bare f) = f"
| "callback (Named n f) = f"

text \<open>The unwrapping followed by \<^verbatim>\<open>hook.apply(this, hookArgs)\<close>.\<close>

definition apply_hook ::
  "('a, 'w) callbacks \<Rightarrow> host \<Rightarrow> 'a list \<Rightarrow> hook \<Rightarrow> ('a, 'w) run_state
     \<Rightarrow> outcome \<times> ('a, 'w) run_state" where
  "apply_hook cbs this hookArgs h s =
     (case cbs (callback h) this hookArgs (world s) of
        (out, w) \<Rightarrow> (out, RunState (invoked s @ [(callback h, this, hookArgs)]) w))"

subsection \<open>\<^verbatim>\<open>runHooks\<close>\<close>

text \<open>
  The loop of the synchronous branch: \<^verbatim>\<open>for (let hook of hooks) { ...
  hook.apply(this, hookArgs); }\<close>. The value of the call is dropped; a throw leaves the
  loop and the method.
\<close>

fun run_sync ::
  "('a, 'w) callbacks \<Rightarrow> host \<Rightarrow> 'a list \<Rightarrow> hook list \<Rightarrow> ('a, 'w) run_state
     \<Rightarrow> (error + unit) \<times> ('a, 'w) run_state" where
  "run_sync cbs this hookArgs [] s = (Inr (), s)"
| "run_sync cbs this hookArgs (h # hs) s =
     (case apply_hook cbs this hookArgs h s of
        (Throws err, s') \<Rightarrow> (Inl err, s')
      | (out, s') \<Rightarrow> run_sync cbs this hookArgs hs s')"

text \<open>A promise as its eventual state.\<close>

datatype 'v promise = Fulfilled 'v | Rejected error | Pending

text \<open>
  Modelled from the spec: \<^verbatim>\<open>Promise.each\<close> of \<^verbatim>\<open>lib/promise.js\<close>, which is not
  among the sources. Section 4.3, step 4: the entries are handled in strict sequence,
  the next one only after the asynchronous completion of the previous one has been
  observed; the first failure (a throw or a rejection) stops the iteration and is the
  failure of the whole; when all succeed the whole is fulfilled (with the array it
  iterated). An entry whose promise never settles leaves the whole pending.
\<close>

fun Promise_each :: "('x \<Rightarrow> 's \<Rightarrow> outcome \<times> 's) \<Rightarrow> 'x list \<Rightarrow> 's \<Rightarrow> 'x list promise \<times> 's" where
  "Promise_each f [] s = (Fulfilled [], s)"
| "Promise_each f (x # xs) s =
     (case f x s of
        (Throws err, s') \<Rightarrow> (Rejected err, s')
      | (Rejects err, s') \<Rightarrow> (Rejected err, s')
      | (NeverSettles, s') \<Rightarrow> (Pending, s')
      | (out, s') \<Rightarrow>
          (case Promise_each f xs s' of
             (Fulfilled ys, s'') \<Rightarrow> (Fulfilled (x # ys), s'')
           | (p, s'') \<Rightarrow> (p, s'')))"

text \<open>\<^verbatim>\<open>.return()\<close>: the same promise, fulfilled with \<^verbatim>\<open>undefined\<close>.\<close>

fun promise_return :: "'v promise \<Rightarrow> unit promise" where
  "promise_return (Fulfilled v) = Fulfilled ()"
| "promise_return (Rejected err) = Rejected err"
| "promise_return Pending = Pending"

text \<open>
  The first argument of \<^verbatim>\<open>runHooks\<close>: missing, a string, an array of hook entries, or
  one hook entry.
\<close>

datatype hooks_arg = Undefined | HookType string | HookArray "hook list" | SingleHook hook

text \<open>\<^verbatim>\<open>!hooks\<close>: \<^verbatim>\<open>undefined\<close> and the empty string are falsy.\<close>

fun falsy :: "hooks_arg \<Rightarrow> bool" where
  "falsy Undefined = True"
| "falsy (HookType t) = (t = [])"
| "falsy (HookArray hs) = False"
| "falsy (SingleHook h) = False"

text \<open>
  Lines 88 to 101: the variable \<^verbatim>\<open>hookType\<close> (\<open>None\<close> while \<^verbatim>\<open>undefined\<close>) and the
  array \<^verbatim>\<open>hooks\<close> after the two \<^verbatim>\<open>if\<close> statements.
\<close>

fun resolve :: "host \<Rightarrow> hooks_arg \<Rightarrow> string option \<times> hook list" where
  "resolve this (HookType t) =
     (Some t,
      case sequelize this of
        None \<Rightarrow> getHooks this t
      | Some parent \<Rightarrow> getHooks this t @ getHooks parent t)"
| "resolve this (HookArray hs) = (None, hs)"
| "resolve this (SingleHook h) = (None, [h])"
| "resolve this Undefined = (None, [])"

text \<open>\<^verbatim>\<open>hookTypes[hookType] && hookTypes[hookType].sync\<close>, as a truth value.\<close>

definition is_sync :: "string option \<Rightarrow> bool" where
  "is_sync hookType =
     (case hookType of
        None \<Rightarrow> False
      | Some t \<Rightarrow> (case hookTypes t of None \<Rightarrow> False | Some d \<Rightarrow> sync d))"

text \<open>
  What \<^verbatim>\<open>runHooks\<close> hands back: it throws, returns \<^verbatim>\<open>undefined\<close> (the
  synchronous branch), or returns a promise.
\<close>

datatype completion = Thrown error | ReturnsUndefined | ReturnsPromise "unit promise"

text \<open>Lines 103 to 124: the two branches, on the resolved array.\<close>

definition dispatch ::
  "('a, 'w) callbacks \<Rightarrow> host \<Rightarrow> string option \<Rightarrow> hook list \<Rightarrow> 'a list
     \<Rightarrow> ('a, 'w) run_state \<Rightarrow> completion \<times> ('a, 'w) run_state" where
  "dispatch cbs this hookType hs hookArgs s =
     (if is_sync hookType then
        (case run_sync cbs this hookArgs hs s of
           (Inl err, s') \<Rightarrow> (Thrown err, s')
         | (Inr u, s') \<Rightarrow> (ReturnsUndefined, s'))
      else
        (case Promise_each (apply_hook cbs this hookArgs) hs s of
           (p, s') \<Rightarrow> (ReturnsPromise (promise_return p), s')))"

definition runHooks ::
  "('a, 'w) callbacks \<Rightarrow> host \<Rightarrow> hooks_arg \<Rightarrow> 'a list \<Rightarrow> ('a, 'w) run_state
     \<Rightarrow> completion \<times> ('a, 'w) run_state" where
  "runHooks cbs this hooks hookArgs s =
     (if falsy hooks then (Thrown (Error ''runHooks requires at least 1 argument''), s)
      else
        (case resolve this hooks of
           (hookType, hs) \<Rightarrow> dispatch cbs this hookType hs hookArgs s))"

subsection \<open>Notions of the specification\<close>

text \<open>
  The removal key of the specification (section 4.2): a callback reference matches the
  bare entries identical to it, a name matches the named entries of that name, and no
  entry of the other kind matches.
\<close>

fun matches_key :: "key \<Rightarrow> hook \<Rightarrow> bool" where
  "matches_key (ByRef f) (Bare g) = (g = f)"
| "matches_key (ByName n) (Named m g) = (m = n)"
| "matches_key k h = False"

text \<open>The call a dispatch makes for an entry: its callback, on the host, with the arguments.\<close>

definition call_of :: "host \<Rightarrow> 'a list \<Rightarrow> hook \<Rightarrow> fn_ref \<times> host \<times> 'a list" where
  "call_of this hookArgs h = (callback h, this, hookArgs)"

text \<open>
  The hooks that a hooks definition asks for under the type \<open>X\<close>: for each property, in
  order, whose name resolves to \<open>X\<close> (\<open>X\<close> is the name itself or one of its proxies),
  the callbacks of the property, in order, as bare entries. A name outside the catalog
  resolves to nothing.
\<close>

definition resolved_types :: "string \<Rightarrow> string list" where
  "resolved_types hookName =
     (case getProxiedHooks hookName of Inl err \<Rightarrow> [] | Inr types \<Rightarrow> types)"

definition configured :: "(string \<times> hooks_definition) list \<Rightarrow> string \<Rightarrow> hook list" where
  "configured hooks X =
     concat (map (\<lambda>(hookName, v).
                    if X \<in> set (resolved_types hookName) then map Bare (hooksArray v) else [])
               hooks)"

section \<open>Properties\<close>

subsection \<open>The catalog\<close>

lemma hookTypes_in_table:
  "hookTypes T = Some d \<Longrightarrow> (T, d) \<in> set hookTypes_table"
  unfolding hookTypes_def by (rule map_of_SomeD)

text \<open>Only \<^verbatim>\<open>beforeSave\<close> and \<^verbatim>\<open>afterSave\<close> have proxies, and neither is restricted.\<close>

lemma table_proxies:
  "list_all (\<lambda>(T, d). case proxies d of None \<Rightarrow> True
      | Some ps \<Rightarrow> (T = ''beforeSave'' \<and> ps = [''beforeUpdate'', ''beforeCreate''] \<or>
          T = ''afterSave'' \<and> ps = [''afterUpdate'', ''afterCreate'']) \<and> \<not> noModel d)
     hookTypes_table"
  by code_simp

lemma table_names: "list_all (\<lambda>(T, d). \<not> inheritedKey T \<and> T \<noteq> []) hookTypes_table"
  by code_simp

lemma catalog_proxies:
  assumes "hookTypes T = Some d" and "proxies d = Some ps"
  shows "(T = ''beforeSave'' \<and> ps = [''beforeUpdate'', ''beforeCreate''] \<or>
          T = ''afterSave'' \<and> ps = [''afterUpdate'', ''afterCreate'']) \<and> \<not> noModel d"
  using hookTypes_in_table [OF assms(1)] assms(2) table_proxies
  by (auto simp: list_all_iff)

lemma catalog_names: "hookTypes T = Some d \<Longrightarrow> \<not> inheritedKey T \<and> T \<noteq> []"
  using table_names by (auto simp: list_all_iff dest!: hookTypes_in_table)

lemma getProxiedHooks_distinct:
  assumes "getProxiedHooks T = Inr types"
  shows "distinct types \<and> T \<in> set types"
proof -
  from assms obtain d where d: "hookTypes T = Some d"
    by (auto simp: getProxiedHooks_def split: option.splits)
  show ?thesis
  proof (cases "proxies d")
    case None
    with assms d show ?thesis by (auto simp: getProxiedHooks_def)
  next
    case (Some ps)
    from catalog_proxies [OF d Some] assms d Some show ?thesis
      by (auto simp: getProxiedHooks_def)
  qed
qed

subsection \<open>Stores\<close>

lemma sequelize_set_hooks [simp]: "sequelize (set_hooks this st) = sequelize this"
  by (simp add: set_hooks_def)

lemma options_hooks_set_hooks [simp]: "options_hooks (set_hooks this st) = Some st"
  by (simp add: set_hooks_def)

lemma set_hooks_same: "options_hooks this = Some st \<Longrightarrow> set_hooks this st = this"
  by (cases this) (simp add: set_hooks_def)

lemma set_hooks_twice [simp]: "set_hooks (set_hooks this st) st' = set_hooks this st'"
  by (simp add: set_hooks_def)

lemma hasHook_set_hooks:
  "hasHook (set_hooks this st) X =
     Inr (case st X of None \<Rightarrow> JSUndefined | Some hs \<Rightarrow> JSBool (hs \<noteq> []))"
  by (simp add: hasHook_def split: option.splits)

lemma getHooks_set_hooks:
  "getHooks (set_hooks this st) X = (case st X of None \<Rightarrow> [] | Some hs \<Rightarrow> hs)"
  by (simp add: getHooks_def)

lemma count_list_distinct: "distinct xs \<Longrightarrow> x \<in> set xs \<Longrightarrow> count_list xs x = 1"
  by (induction xs) auto

subsection \<open>Registration\<close>

text \<open>
  On a host with a store the loop of \<^verbatim>\<open>addHook\<close> never throws; it appends the entry to
  the list of each resolved type, once per occurrence of the type.
\<close>

lemma push_each_store:
  assumes "options_hooks this = Some st"
  shows "\<exists>st'. push_each e types this = (Inr (), set_hooks this st') \<and>
           (\<forall>X. st' X = (if X \<in> set types
                          then Some (getHooks this X @ replicate (count_list types X) e)
                          else st X))"
  using assms
proof (induction types arbitrary: this st)
  case Nil
  then show ?case by (cases this) (auto simp: set_hooks_def)
next
  case (Cons T types)
  let ?this1 = "set_hooks this (st(T \<mapsto> getHooks this T @ [e]))"
  have h1: "options_hooks ?this1 = Some (st(T \<mapsto> getHooks this T @ [e]))" by simp
  from Cons.IH [OF h1] obtain st' where
    run: "push_each e types ?this1 = (Inr (), set_hooks ?this1 st')" and
    st': "\<And>X. st' X = (if X \<in> set types
                          then Some (getHooks ?this1 X @ replicate (count_list types X) e)
                          else (st(T \<mapsto> getHooks this T @ [e])) X)"
    by blast
  have same: "set_hooks ?this1 st' = set_hooks this st'" by (simp add: set_hooks_def)
  have g1: "\<And>X. getHooks ?this1 X = (if X = T then getHooks this T @ [e] else getHooks this X)"
    using Cons.prems by (simp add: getHooks_def)
  have "push_each e (T # types) this = (Inr (), set_hooks this st')"
    using Cons.prems run same by simp
  moreover have "\<forall>X. st' X = (if X \<in> set (T # types)
                          then Some (getHooks this X @ replicate (count_list (T # types) X) e)
                          else st X)"
    using st' g1 by (auto simp: replicate_append_same)
  ultimately show ?case by blast
qed

lemma addHook_unknown:
  "hookTypes T = None \<Longrightarrow> addHook this T name fn = (Inl TypeError, this)"
  by (simp add: addHook_def getProxiedHooks_def)

lemma addHook_success:
  assumes "addHook this T name fn = (Inr (), this')"
  shows "\<exists>types st st'. getProxiedHooks T = Inr types \<and> options_hooks this = Some st \<and>
           this' = set_hooks this st' \<and>
           (\<forall>X. st' X = (if X \<in> set types then Some (getHooks this X @ [entry name fn])
                          else st X))"
proof -
  from assms obtain types where types: "getProxiedHooks T = Inr types"
    and run: "push_each (entry name fn) types this = (Inr (), this')"
    by (auto simp: addHook_def split: if_splits sum.splits)
  have ne: "types \<noteq> []" using getProxiedHooks_distinct [OF types] by auto
  obtain st where st: "options_hooks this = Some st"
    using run ne by (cases types; cases "options_hooks this") auto
  from push_each_store [OF st, of "entry name fn" types] run obtain st' where
    "this' = set_hooks this st'" and
    "\<forall>X. st' X = (if X \<in> set types
                    then Some (getHooks this X @ replicate (count_list types X) (entry name fn))
                    else st X)"
    by auto
  moreover have "\<And>X. X \<in> set types \<Longrightarrow> count_list types X = 1"
    using getProxiedHooks_distinct [OF types] by (simp add: count_list_distinct)
  ultimately show ?thesis using types st by auto
qed

lemma addHook_runs:
  assumes "getProxiedHooks T = Inr types" and "options_hooks this = Some st"
    and "\<not> ((case hookTypes T of None \<Rightarrow> False | Some d \<Rightarrow> noModel d) \<and> sequelize this \<noteq> None)"
  shows "\<exists>this'. addHook this T name fn = (Inr (), this')"
  using assms push_each_store [OF assms(2), of "entry name fn" types]
  by (auto simp: addHook_def)

text \<open>
  C1. The claim: a hook type that is not in the catalog is no error anywhere, and
  \<^verbatim>\<open>addHook(host, unknownType, fn)\<close> succeeds, appending \<^verbatim>\<open>fn\<close> under the literal
  type. The code: \<^verbatim>\<open>addHook\<close> guards its test of \<^verbatim>\<open>noModel\<close> with
  \<^verbatim>\<open>hookTypes[hookType] &&\<close>, but then calls \<^verbatim>\<open>getProxiedHooks\<close>, which reads
  \<^verbatim>\<open>hookTypes[hookType].proxies\<close> without that guard. On a host with an empty store and
  no parent, registering \<^verbatim>\<open>fn\<close> under the unknown type \<^verbatim>\<open>customHook\<close> throws a
  TypeError and leaves the store empty.
\<close>

theorem addHook_unknown_type_throws:
  "addHook (Host (Some Map.empty) None) ''customHook'' None fn
     = (Inl TypeError, Host (Some Map.empty) None)"
  by (rule addHook_unknown) code_simp

text \<open>
  C2. For every hook type \<open>T\<close> of the catalog whose proxies are \<open>A\<close> and \<open>B\<close>, one
  call \<^verbatim>\<open>addHook(host, T, fn)\<close> (with or without a name) on a host with an empty store
  returns normally; afterwards \<^verbatim>\<open>hasHook\<close> is \<^verbatim>\<open>true\<close> for \<open>A\<close>, \<open>B\<close> and \<open>T\<close>,
  and each of the three lists consists of the one new entry, whose callback is \<open>fn\<close>:
  the aliases are written into the store at registration.
\<close>

theorem addHook_expands_aliases:
  assumes "hookTypes T = Some d" and "proxies d = Some [A, B]"
    and "options_hooks this = Some Map.empty"
  shows "\<exists>this'. addHook this T name fn = (Inr (), this') \<and>
           hasHook this' A = Inr (JSBool True) \<and>
           hasHook this' B = Inr (JSBool True) \<and>
           hasHook this' T = Inr (JSBool True) \<and>
           getHooks this' A = [entry name fn] \<and>
           getHooks this' B = [entry name fn] \<and>
           getHooks this' T = [entry name fn] \<and>
           callback (entry name fn) = fn"
proof -
  from catalog_proxies [OF assms(1,2)] have nm: "\<not> noModel d" by simp
  have types: "getProxiedHooks T = Inr [A, B, T]"
    using assms by (simp add: getProxiedHooks_def)
  from addHook_runs [OF types assms(3), of name fn] nm assms(1)
  obtain this' where run: "addHook this T name fn = (Inr (), this')" by auto
  from addHook_success [OF run] types assms(3) obtain st' where
    this': "this' = set_hooks this st'" and
    st': "\<And>X. st' X = (if X \<in> set [A, B, T] then Some (getHooks this X @ [entry name fn])
                         else None)"
    by auto
  have empty: "\<And>X. getHooks this X = []" using assms(3) by (simp add: getHooks_def)
  have cb: "callback (entry name fn) = fn" by (simp add: entry_def split: option.splits)
  show ?thesis using run cb
    by (simp add: this' hasHook_set_hooks getHooks_set_hooks st' empty)
qed

theorem addHook_expands_aliases_witness:
  "\<exists>this'. addHook (Host (Some Map.empty) None) ''beforeSave'' None 7 = (Inr (), this') \<and>
      hasHook this' ''beforeUpdate'' = Inr (JSBool True) \<and>
      hasHook this' ''beforeCreate'' = Inr (JSBool True) \<and>
      hasHook this' ''beforeSave'' = Inr (JSBool True) \<and>
      getHooks this' ''beforeUpdate'' = [Bare 7] \<and>
      getHooks this' ''beforeCreate'' = [Bare 7] \<and>
      getHooks this' ''beforeSave'' = [Bare 7]"
proof -
  have d: "hookTypes ''beforeSave'' =
             Some ((desc 2)\<lparr>proxies := Some [''beforeUpdate'', ''beforeCreate'']\<rparr>)"
    by code_simp
  show ?thesis
    using addHook_expands_aliases [OF d, of "''beforeUpdate''" "''beforeCreate''"
        "Host (Some Map.empty) None" None 7]
    by (simp add: entry_def)
qed

text \<open>
  C5. For every hook type \<open>T\<close> that the catalog marks \<^verbatim>\<open>noModel\<close> and every host with
  a parent, \<^verbatim>\<open>addHook(host, T, fn)\<close> throws the error whose message starts with \<open>T\<close>
  (\<^verbatim>\<open>T is only applicable on a sequelize instance or static\<close>), and the host is as
  it was before the call: nothing is appended under \<open>T\<close> or any other type.
\<close>

theorem addHook_restricted:
  assumes "hookTypes T = Some d" and "noModel d" and "sequelize this = Some parent"
  shows "addHook this T name fn = (Inl (Error (restricted_msg T)), this) \<and>
         prefix T (restricted_msg T)"
  using assms by (simp add: addHook_def restricted_msg_def)

theorem addHook_restricted_witness:
  "addHook (Host (Some Map.empty) (Some (Host (Some Map.empty) None))) ''beforeDefine'' None 1
     = (Inl (Error ''beforeDefine is only applicable on a sequelize instance or static''),
        Host (Some Map.empty) (Some (Host (Some Map.empty) None)))"
proof -
  have d: "hookTypes ''beforeDefine'' = Some ((desc 2)\<lparr>sync := True, noModel := True\<rparr>)"
    by code_simp
  show ?thesis
    using addHook_restricted [OF d, of "Host (Some Map.empty) (Some (Host (Some Map.empty) None))"
        "Host (Some Map.empty) None" None 1]
    by (simp add: restricted_msg_def desc_def)
qed

subsection \<open>Removal\<close>

lemma keep_matches_key: "keep k h = (\<not> matches_key k h)"
  by (cases k; cases h) simp_all

text \<open>
  The loop of \<^verbatim>\<open>removeHook\<close>, whether it runs to its end or throws on the way: each
  list of the store is what it was or its filtered copy, lists of other types are what
  they were, and after a normal end every resolved type had a list and has its filtered
  copy.
\<close>

lemma filter_each_store:
  assumes "options_hooks this = Some st"
  shows "\<exists>st'. snd (filter_each k types this) = set_hooks this st' \<and>
           (\<forall>X. st' X = st X \<or> st' X = map_option (filter (keep k)) (st X)) \<and>
           (\<forall>X. X \<notin> set types \<longrightarrow> st' X = st X) \<and>
           (fst (filter_each k types this) = Inr () \<longrightarrow>
              (\<forall>X\<in>set types. st X \<noteq> None \<and> st' X = map_option (filter (keep k)) (st X)))"
  using assms
proof (induction types arbitrary: this st)
  case Nil
  then show ?case by (auto simp: set_hooks_same intro!: exI [of _ st])
next
  case (Cons T types)
  show ?case
  proof (cases "st T")
    case None
    with Cons.prems show ?thesis by (auto simp: set_hooks_same intro!: exI [of _ st])
  next
    case (Some hs)
    let ?st1 = "st(T \<mapsto> filter (keep k) hs)"
    let ?this1 = "set_hooks this ?st1"
    have step: "filter_each k (T # types) this = filter_each k types ?this1"
      using Cons.prems Some by simp
    have h1: "options_hooks ?this1 = Some ?st1" by simp
    from Cons.IH [OF h1] obtain st' where
      a: "snd (filter_each k types ?this1) = set_hooks ?this1 st'" and
      b: "\<And>X. st' X = ?st1 X \<or> st' X = map_option (filter (keep k)) (?st1 X)" and
      c: "\<And>X. X \<notin> set types \<Longrightarrow> st' X = ?st1 X" and
      d: "fst (filter_each k types ?this1) = Inr () \<Longrightarrow>
            (\<forall>X\<in>set types. ?st1 X \<noteq> None \<and> st' X = map_option (filter (keep k)) (?st1 X))"
      by blast
    have T': "st' T = Some (filter (keep k) hs)" using b [of T] by auto
    have "snd (filter_each k (T # types) this) = set_hooks this st'"
      using a step by simp
    moreover have "\<forall>X. st' X = st X \<or> st' X = map_option (filter (keep k)) (st X)"
    proof
      fix X show "st' X = st X \<or> st' X = map_option (filter (keep k)) (st X)"
        using b [of X] T' Some by (cases "X = T") auto
    qed
    moreover have "\<forall>X. X \<notin> set (T # types) \<longrightarrow> st' X = st X"
      using c by auto
    moreover have "fst (filter_each k (T # types) this) = Inr () \<longrightarrow>
              (\<forall>X\<in>set (T # types). st X \<noteq> None \<and> st' X = map_option (filter (keep k)) (st X))"
    proof
      assume "fst (filter_each k (T # types) this) = Inr ()"
      with step d
      have e: "\<forall>X\<in>set types. ?st1 X \<noteq> None \<and> st' X = map_option (filter (keep k)) (?st1 X)"
        by simp
      show "\<forall>X\<in>set (T # types). st X \<noteq> None \<and> st' X = map_option (filter (keep k)) (st X)"
      proof
        fix X assume "X \<in> set (T # types)"
        then show "st X \<noteq> None \<and> st' X = map_option (filter (keep k)) (st X)"
          using e T' Some by (cases "X = T") auto
      qed
    qed
    ultimately show ?thesis by blast
  qed
qed

lemma filter_each_runs:
  assumes "options_hooks this = Some st" and "\<forall>X\<in>set types. st X \<noteq> None"
  shows "fst (filter_each k types this) = Inr ()"
  using assms
proof (induction types arbitrary: this st)
  case Nil
  then show ?case by simp
next
  case (Cons T types)
  then obtain hs where hs: "st T = Some hs" by auto
  let ?st1 = "st(T \<mapsto> filter (keep k) hs)"
  have "fst (filter_each k types (set_hooks this ?st1)) = Inr ()"
    by (rule Cons.IH [of _ ?st1]) (use Cons.prems in auto)
  then show ?case using Cons.prems hs by simp
qed

lemma removeHook_success:
  assumes "options_hooks this = Some st" and "st T = Some hs" and "hs \<noteq> []"
    and "getProxiedHooks T = Inr types"
  shows "removeHook this T k = filter_each k types this"
  using assms by (simp add: removeHook_def hasHook_def)

lemma removeHook_store:
  assumes "options_hooks this = Some st"
  shows "\<exists>st'. snd (removeHook this T k) = set_hooks this st' \<and>
           (\<forall>X. st' X = st X \<or> st' X = map_option (filter (keep k)) (st X))"
proof (cases "\<exists>types hs. st T = Some hs \<and> hs \<noteq> [] \<and> getProxiedHooks T = Inr types")
  case True
  then obtain types hs where "getProxiedHooks T = Inr types" "st T = Some hs" "hs \<noteq> []"
    by auto
  then have "removeHook this T k = filter_each k types this"
    using assms by (simp add: removeHook_def hasHook_def)
  with filter_each_store [OF assms, of k types] show ?thesis by auto
next
  case False
  then have "snd (removeHook this T k) = this"
    using assms by (auto simp: removeHook_def hasHook_def split: option.splits sum.splits)
  then show ?thesis using assms by (auto simp: set_hooks_same intro!: exI [of _ st])
qed

lemma removeHook_getHooks:
  "getHooks (snd (removeHook this T k)) X = getHooks this X \<or>
   getHooks (snd (removeHook this T k)) X = filter (keep k) (getHooks this X)"
proof (cases "options_hooks this")
  case None
  then show ?thesis by (simp add: removeHook_def hasHook_def)
next
  case (Some st)
  from removeHook_store [OF Some, of T k] obtain st' where
    "snd (removeHook this T k) = set_hooks this st'"
    "st' X = st X \<or> st' X = map_option (filter (keep k)) (st X)"
    by blast
  then show ?thesis using Some
    by (auto simp: getHooks_set_hooks getHooks_def split: option.splits)
qed

text \<open>
  C6. For every hook type \<open>T\<close> of the catalog and callback \<open>fn\<close>, on a host with a
  store, on which \<open>T\<close> may be registered, and which has no entry under \<open>T\<close> or under
  an alias of \<open>T\<close>: \<^verbatim>\<open>addHook(host, T, fn)\<close> returns normally, and after it, for
  \<open>T\<close> and for every alias of \<open>T\<close> (the types that \<^verbatim>\<open>getProxiedHooks\<close> resolves
  \<open>T\<close> to), \<^verbatim>\<open>hasHook\<close> is \<^verbatim>\<open>true\<close> and the list is the one bare entry
  \<open>fn\<close>; the following \<^verbatim>\<open>removeHook(host, T, fn)\<close> returns normally, and after it,
  for each of these types, \<^verbatim>\<open>hasHook\<close> is \<^verbatim>\<open>false\<close> and the list is empty.
\<close>

theorem addHook_removeHook_symmetry:
  assumes catalog: "hookTypes T = Some d"
    and allowed: "noModel d \<longrightarrow> sequelize this = None"
    and store: "options_hooks this = Some st"
    and types: "getProxiedHooks T = Inr types"
    and fresh: "\<forall>X\<in>set types. getHooks this X = []"
  shows "\<exists>this1 this2. addHook this T None fn = (Inr (), this1) \<and>
           (\<forall>X\<in>set types. hasHook this1 X = Inr (JSBool True) \<and>
                            getHooks this1 X = [Bare fn]) \<and>
           removeHook this1 T (ByRef fn) = (Inr (), this2) \<and>
           T \<in> set types \<and>
           (\<forall>X\<in>set types. hasHook this2 X = Inr (JSBool False) \<and>
                            getHooks this2 X = [])"
proof -
  from addHook_runs [OF types store, of None fn] catalog allowed
  obtain this1 where add: "addHook this T None fn = (Inr (), this1)" by auto
  from addHook_success [OF add] types store obtain st1 where
    this1: "this1 = set_hooks this st1" and
    st1: "\<And>X. st1 X = (if X \<in> set types then Some (getHooks this X @ [entry None fn])
                         else st X)"
    by auto
  have e: "entry None fn = Bare fn" by (simp add: entry_def)
  have st1': "\<And>X. X \<in> set types \<Longrightarrow> st1 X = Some [Bare fn]"
    using st1 fresh e by simp
  have T: "T \<in> set types" using getProxiedHooks_distinct [OF types] by simp
  have h1: "options_hooks this1 = Some st1" by (simp add: this1)
  have run: "removeHook this1 T (ByRef fn) = filter_each (ByRef fn) types this1"
    by (rule removeHook_success [OF h1 st1' [OF T] _ types]) simp
  have ok: "fst (filter_each (ByRef fn) types this1) = Inr ()"
    by (rule filter_each_runs [OF h1]) (simp add: st1')
  from filter_each_store [OF h1, of "ByRef fn" types] ok obtain st2 where
    this2: "snd (filter_each (ByRef fn) types this1) = set_hooks this1 st2" and
    st2: "\<forall>X\<in>set types. st2 X = map_option (filter (keep (ByRef fn))) (st1 X)"
    by auto
  have "removeHook this1 T (ByRef fn) = (Inr (), set_hooks this1 st2)"
    using run ok this2 by (simp add: prod_eq_iff)
  moreover have "\<forall>X\<in>set types. hasHook (set_hooks this1 st2) X = Inr (JSBool False) \<and>
                                getHooks (set_hooks this1 st2) X = []"
    using st2 st1' by (simp add: hasHook_set_hooks getHooks_set_hooks)
  moreover have "\<forall>X\<in>set types. hasHook this1 X = Inr (JSBool True) \<and>
                                getHooks this1 X = [Bare fn]"
    using st1' by (simp add: this1 hasHook_set_hooks getHooks_set_hooks)
  ultimately show ?thesis using add T by blast
qed

theorem addHook_removeHook_symmetry_witness:
  "\<exists>this1 this2.
     addHook (Host (Some Map.empty) None) ''afterSave'' None 3 = (Inr (), this1) \<and>
     hasHook this1 ''afterUpdate'' = Inr (JSBool True) \<and>
     hasHook this1 ''afterCreate'' = Inr (JSBool True) \<and>
     hasHook this1 ''afterSave'' = Inr (JSBool True) \<and>
     getHooks this1 ''afterUpdate'' = [Bare 3] \<and>
     getHooks this1 ''afterCreate'' = [Bare 3] \<and>
     getHooks this1 ''afterSave'' = [Bare 3] \<and>
     removeHook this1 ''afterSave'' (ByRef 3) = (Inr (), this2) \<and>
     hasHook this2 ''afterUpdate'' = Inr (JSBool False) \<and>
     hasHook this2 ''afterCreate'' = Inr (JSBool False) \<and>
     hasHook this2 ''afterSave'' = Inr (JSBool False) \<and>
     getHooks this2 ''afterUpdate'' = [] \<and>
     getHooks this2 ''afterCreate'' = [] \<and>
     getHooks this2 ''afterSave'' = []"
proof -
  let ?h = "Host (Some Map.empty) None"
  have d: "hookTypes ''afterSave'' =
             Some ((desc 2)\<lparr>proxies := Some [''afterUpdate'', ''afterCreate'']\<rparr>)"
    by code_simp
  have types: "getProxiedHooks ''afterSave'' = Inr [''afterUpdate'', ''afterCreate'', ''afterSave'']"
    by (simp add: getProxiedHooks_def d desc_def)
  have allowed: "noModel ((desc 2)\<lparr>proxies := Some [''afterUpdate'', ''afterCreate'']\<rparr>)
                   \<longrightarrow> sequelize ?h = None"
    by simp
  have store: "options_hooks ?h = Some Map.empty" by simp
  have fresh: "\<forall>X\<in>set [''afterUpdate'', ''afterCreate'', ''afterSave'']. getHooks ?h X = []"
    by (simp add: getHooks_def)
  from addHook_removeHook_symmetry [OF d allowed store types fresh, of 3]
  show ?thesis by auto
qed

text \<open>
  C7. For every host, hook type \<open>T\<close> and key, whatever \<^verbatim>\<open>removeHook(host, T, key)\<close>
  does (return or throw), for every type \<open>X\<close>: the list of \<open>X\<close> afterwards is a
  subsequence of the list before, and the entries that do not match the key are the same
  before and after, in the same order. So a name key leaves every bare entry in place and
  a callback key leaves every named entry in place. When the host has hooks for \<open>T\<close> and
  the call returns normally, the list of every resolved type is the list before without
  the matching entries.
\<close>

theorem removeHook_removes_only_matching:
  assumes "removeHook this T k = (r, this')"
  shows "(\<forall>X. subseq (getHooks this' X) (getHooks this X) \<and>
              filter (\<lambda>h. \<not> matches_key k h) (getHooks this' X) =
              filter (\<lambda>h. \<not> matches_key k h) (getHooks this X)) \<and>
         (\<forall>n f X. k = ByName n \<longrightarrow>
              count_list (getHooks this' X) (Bare f) = count_list (getHooks this X) (Bare f)) \<and>
         (\<forall>g m f X. k = ByRef g \<longrightarrow>
              count_list (getHooks this' X) (Named m f) =
              count_list (getHooks this X) (Named m f)) \<and>
         (\<forall>types. r = Inr () \<and> hasHook this T = Inr (JSBool True) \<and>
              getProxiedHooks T = Inr types \<longrightarrow>
              (\<forall>X\<in>set types.
                 getHooks this' X = filter (\<lambda>h. \<not> matches_key k h) (getHooks this X)))"
proof -
  have this': "this' = snd (removeHook this T k)" using assms by simp
  have alt: "\<And>X. getHooks this' X = getHooks this X \<or>
                 getHooks this' X = filter (\<lambda>h. \<not> matches_key k h) (getHooks this X)"
    using removeHook_getHooks [of this T k] by (simp add: this' keep_matches_key [abs_def])
  have p1: "\<And>X. subseq (getHooks this' X) (getHooks this X)"
    using alt by (metis subseq_filter_left subseq_order.order_refl)
  have p2: "\<And>X. filter (\<lambda>h. \<not> matches_key k h) (getHooks this' X) =
              filter (\<lambda>h. \<not> matches_key k h) (getHooks this X)"
  proof -
    fix X from alt [of X] show "filter (\<lambda>h. \<not> matches_key k h) (getHooks this' X) =
              filter (\<lambda>h. \<not> matches_key k h) (getHooks this X)"
      by auto
  qed
  have cnt: "\<And>X e. \<not> matches_key k e \<Longrightarrow>
       count_list (getHooks this' X) e = count_list (getHooks this X) e"
  proof -
    fix X e assume ne: "\<not> matches_key k e"
    have "\<And>xs. count_list (filter (\<lambda>h. \<not> matches_key k h) xs) e = count_list xs e"
      subgoal for xs using ne by (induction xs) auto
      done
    then show "count_list (getHooks this' X) e = count_list (getHooks this X) e"
      using alt [of X] by auto
  qed
  have p3: "\<forall>n f X. k = ByName n \<longrightarrow>
              count_list (getHooks this' X) (Bare f) = count_list (getHooks this X) (Bare f)"
    using cnt by auto
  have p4: "\<forall>g m f X. k = ByRef g \<longrightarrow>
              count_list (getHooks this' X) (Named m f) =
              count_list (getHooks this X) (Named m f)"
    using cnt by auto
  have p5: "\<forall>types. r = Inr () \<and> hasHook this T = Inr (JSBool True) \<and>
              getProxiedHooks T = Inr types \<longrightarrow>
              (\<forall>X\<in>set types.
                 getHooks this' X = filter (\<lambda>h. \<not> matches_key k h) (getHooks this X))"
  proof (intro allI impI ballI, elim conjE)
    fix types X
    assume r: "r = Inr ()" and has: "hasHook this T = Inr (JSBool True)"
      and types: "getProxiedHooks T = Inr types" and X: "X \<in> set types"
    from has obtain st hs where st: "options_hooks this = Some st"
      and hs: "st T = Some hs" "hs \<noteq> []"
      by (auto simp: hasHook_def split: option.splits)
    have run: "removeHook this T k = filter_each k types this"
      by (rule removeHook_success [OF st hs types])
    with assms r have ok: "fst (filter_each k types this) = Inr ()" by simp
    from filter_each_store [OF st, of k types] ok X obtain st' where
      "snd (filter_each k types this) = set_hooks this st'"
      "st X \<noteq> None" "st' X = map_option (filter (keep k)) (st X)"
      by blast
    then show "getHooks this' X = filter (\<lambda>h. \<not> matches_key k h) (getHooks this X)"
      using run st
      by (auto simp: this' getHooks_set_hooks getHooks_def keep_matches_key [abs_def])
  qed
  show ?thesis using p1 p2 p3 p4 p5 by blast
qed

text \<open>
  The scenario of the claim: an anonymous callback is registered under
  \<^verbatim>\<open>beforeCreate\<close>, then \<^verbatim>\<open>removeHook(host, "beforeCreate", "someName")\<close> is called.
\<close>

theorem removeHook_removes_only_matching_witness:
  "\<exists>this1 r this2.
     addHook (Host (Some Map.empty) None) ''beforeCreate'' None 5 = (Inr (), this1) \<and>
     getHooks this1 ''beforeCreate'' = [Bare 5] \<and>
     removeHook this1 ''beforeCreate'' (ByName ''someName'') = (r, this2) \<and>
     getHooks this2 ''beforeCreate'' = [Bare 5]"
proof -
  let ?h = "Host (Some Map.empty) None"
  have d: "hookTypes ''beforeCreate'' = Some (desc 2)" by code_simp
  have types: "getProxiedHooks ''beforeCreate'' = Inr [''beforeCreate'']"
    by (simp add: getProxiedHooks_def d desc_def)
  obtain this1 where add: "addHook ?h ''beforeCreate'' None 5 = (Inr (), this1)"
    using addHook_runs [OF types, of ?h Map.empty None 5] by (auto simp: d desc_def)
  from addHook_success [OF add] types
  have g1: "getHooks this1 ''beforeCreate'' = [Bare 5]"
    by (auto simp: getHooks_set_hooks getHooks_def entry_def)
  obtain r this2 where rm: "removeHook this1 ''beforeCreate'' (ByName ''someName'') = (r, this2)"
    by (cases "removeHook this1 ''beforeCreate'' (ByName ''someName'')")
  from removeHook_removes_only_matching [OF rm]
  have "filter (\<lambda>h. \<not> matches_key (ByName ''someName'') h) (getHooks this2 ''beforeCreate'') =
        filter (\<lambda>h. \<not> matches_key (ByName ''someName'') h) (getHooks this1 ''beforeCreate'')"
    and "subseq (getHooks this2 ''beforeCreate'') (getHooks this1 ''beforeCreate'')"
    by blast+
  then have "getHooks this2 ''beforeCreate'' = [Bare 5]"
    unfolding g1 by (cases "getHooks this2 ''beforeCreate''") (auto split: if_splits)
  with add g1 rm show ?thesis by blast
qed

subsection \<open>Dispatch\<close>

lemma apply_hook_invoked:
  "apply_hook cbs this args h s = (out, s') \<Longrightarrow> invoked s' = invoked s @ [call_of this args h]"
  by (auto simp: apply_hook_def call_of_def split: prod.splits)

text \<open>The sequential iteration, one entry at a time.\<close>

lemma Promise_each_fulfilled:
  "Promise_each f xs s = (Fulfilled ys, s') \<Longrightarrow> ys = xs"
  by (induction xs arbitrary: s ys) (auto split: prod.splits outcome.splits promise.splits)

lemma Promise_each_snoc_ok:
  assumes "Promise_each f xs s = (Fulfilled ys, s1)" and "f x s1 = (out, s2)"
    and "out = Returns \<or> out = Resolves"
  shows "Promise_each f (xs @ [x]) s = (Fulfilled (xs @ [x]), s2)"
  using assms
proof (induction xs arbitrary: s ys)
  case Nil
  then show ?case by auto
next
  case (Cons a xs)
  then show ?case
    by (auto split: prod.splits outcome.splits promise.splits)
qed

lemma Promise_each_fail:
  assumes "Promise_each f xs s = (Fulfilled ys, s1)" and "f x s1 = (out, s2)"
    and "out = Throws e \<or> out = Rejects e"
  shows "Promise_each f (xs @ x # zs) s = (Rejected e, s2)"
  using assms
proof (induction xs arbitrary: s ys)
  case Nil
  then show ?case by auto
next
  case (Cons a xs)
  then show ?case
    by (auto split: prod.splits outcome.splits promise.splits)
qed

text \<open>
  The calls of an iteration are those of a prefix of the list, in the order of the list:
  of the whole list when the promise is fulfilled.
\<close>

lemma Promise_each_invoked:
  "Promise_each (apply_hook cbs this args) hs s = (p, s') \<Longrightarrow>
   \<exists>n\<le>length hs. invoked s' = invoked s @ map (call_of this args) (take n hs) \<and>
      (\<forall>ys. p = Fulfilled ys \<longrightarrow> n = length hs)"
proof (induction hs arbitrary: s p s')
  case Nil
  then show ?case by auto
next
  case (Cons h hs)
  obtain out s1 where a: "apply_hook cbs this args h s = (out, s1)"
    by (cases "apply_hook cbs this args h s")
  note inv = apply_hook_invoked [OF a]
  show ?case
  proof (cases "out = Returns \<or> out = Resolves")
    case False
    with a Cons.prems have "s' = s1" "\<forall>ys. p \<noteq> Fulfilled ys"
      by (cases out; auto)+
    with inv show ?thesis by (intro exI [of _ 1]) auto
  next
    case True
    obtain p1 s2 where b: "Promise_each (apply_hook cbs this args) hs s1 = (p1, s2)"
      by (cases "Promise_each (apply_hook cbs this args) hs s1")
    from Cons.IH [OF b] obtain n where n: "n \<le> length hs"
      "invoked s2 = invoked s1 @ map (call_of this args) (take n hs)"
      "\<forall>ys. p1 = Fulfilled ys \<longrightarrow> n = length hs" by blast
    from True a b Cons.prems
    have "s' = s2" "\<forall>ys. p = Fulfilled ys \<longrightarrow> (\<exists>zs. p1 = Fulfilled zs)"
      by (auto split: promise.splits)
    with n inv show ?thesis by (intro exI [of _ "Suc n"]) auto
  qed
qed

text \<open>The synchronous loop, one entry at a time.\<close>

lemma run_sync_snoc_ok:
  assumes "run_sync cbs this args xs s = (Inr (), s1)"
    and "apply_hook cbs this args x s1 = (out, s2)" and "\<forall>e. out \<noteq> Throws e"
  shows "run_sync cbs this args (xs @ [x]) s = (Inr (), s2)"
  using assms
proof (induction xs arbitrary: s)
  case Nil
  then show ?case by (cases out) auto
next
  case (Cons a xs)
  then show ?case
    by (auto split: prod.splits outcome.splits)
qed

lemma run_sync_fail:
  assumes "run_sync cbs this args xs s = (Inr (), s1)"
    and "apply_hook cbs this args x s1 = (Throws e, s2)"
  shows "run_sync cbs this args (xs @ x # zs) s = (Inl e, s2)"
  using assms
proof (induction xs arbitrary: s)
  case Nil
  then show ?case by auto
next
  case (Cons a xs)
  then show ?case
    by (auto split: prod.splits outcome.splits)
qed

lemma run_sync_invoked:
  "run_sync cbs this args hs s = (r, s') \<Longrightarrow>
   \<exists>n\<le>length hs. invoked s' = invoked s @ map (call_of this args) (take n hs) \<and>
      (r = Inr () \<longrightarrow> n = length hs)"
proof (induction hs arbitrary: s r s')
  case Nil
  then show ?case by auto
next
  case (Cons h hs)
  obtain out s1 where a: "apply_hook cbs this args h s = (out, s1)"
    by (cases "apply_hook cbs this args h s")
  note inv = apply_hook_invoked [OF a]
  show ?case
  proof (cases "\<exists>e. out = Throws e")
    case True
    with a Cons.prems have "s' = s1" "r \<noteq> Inr ()" by auto
    with inv show ?thesis by (intro exI [of _ 1]) auto
  next
    case False
    with a Cons.prems have b: "run_sync cbs this args hs s1 = (r, s')"
      by (cases out) auto
    from Cons.IH [OF b] obtain n where n: "n \<le> length hs"
      "invoked s' = invoked s1 @ map (call_of this args) (take n hs)"
      "r = Inr () \<longrightarrow> n = length hs" by blast
    with inv show ?thesis by (intro exI [of _ "Suc n"]) auto
  qed
qed

text \<open>The two branches of \<^verbatim>\<open>runHooks\<close> in terms of their iterations.\<close>

lemma dispatch_sync_returns:
  "is_sync ht \<Longrightarrow>
   dispatch cbs this ht hs args s = (ReturnsUndefined, s') \<longleftrightarrow>
     run_sync cbs this args hs s = (Inr (), s')"
  by (auto simp: dispatch_def split: prod.splits sum.splits)

lemma dispatch_sync_throws:
  "is_sync ht \<Longrightarrow>
   dispatch cbs this ht hs args s = (Thrown e, s') \<longleftrightarrow>
     run_sync cbs this args hs s = (Inl e, s')"
  by (auto simp: dispatch_def split: prod.splits sum.splits)

lemma dispatch_async_fulfilled:
  "\<not> is_sync ht \<Longrightarrow>
   dispatch cbs this ht hs args s = (ReturnsPromise (Fulfilled ()), s') \<longleftrightarrow>
     Promise_each (apply_hook cbs this args) hs s = (Fulfilled hs, s')"
proof -
  assume a: "\<not> is_sync ht"
  obtain p s1 where p: "Promise_each (apply_hook cbs this args) hs s = (p, s1)"
    by (cases "Promise_each (apply_hook cbs this args) hs s")
  show ?thesis
  proof (cases p)
    case (Fulfilled ys)
    with p Promise_each_fulfilled [of "apply_hook cbs this args" hs s ys s1] a
    show ?thesis by (auto simp: dispatch_def)
  qed (use a p in \<open>auto simp: dispatch_def\<close>)
qed

lemma dispatch_async_rejected:
  "\<not> is_sync ht \<Longrightarrow>
   dispatch cbs this ht hs args s = (ReturnsPromise (Rejected e), s') \<longleftrightarrow>
     Promise_each (apply_hook cbs this args) hs s = (Rejected e, s')"
proof -
  assume a: "\<not> is_sync ht"
  obtain p s1 where p: "Promise_each (apply_hook cbs this args) hs s = (p, s1)"
    by (cases "Promise_each (apply_hook cbs this args) hs s")
  show ?thesis by (cases p) (use a p in \<open>auto simp: dispatch_def\<close>)
qed

lemma dispatch_invoked:
  assumes "dispatch cbs this ht hs args s = (c, s')"
  shows "\<exists>n\<le>length hs. invoked s' = invoked s @ map (call_of this args) (take n hs) \<and>
      (c = ReturnsUndefined \<or> c = ReturnsPromise (Fulfilled ()) \<longrightarrow> n = length hs)"
proof (cases "is_sync ht")
  case True
  obtain r s1 where r: "run_sync cbs this args hs s = (r, s1)"
    by (cases "run_sync cbs this args hs s")
  from run_sync_invoked [OF r] r assms True show ?thesis
    by (cases r) (auto simp: dispatch_def)
next
  case False
  obtain p s1 where p: "Promise_each (apply_hook cbs this args) hs s = (p, s1)"
    by (cases "Promise_each (apply_hook cbs this args) hs s")
  from Promise_each_invoked [OF p] p assms False show ?thesis
    by (cases p) (auto simp: dispatch_def)
qed

lemma runHooks_dispatch:
  "\<not> falsy hooks \<Longrightarrow> resolve this hooks = (ht, hs) \<Longrightarrow>
   runHooks cbs this hooks args s = dispatch cbs this ht hs args s"
  by (simp add: runHooks_def)

text \<open>
  C3. For every call of \<^verbatim>\<open>runHooks\<close> that takes the asynchronous branch (an array, one
  hook, or a hook type name that the catalog does not mark \<^verbatim>\<open>sync\<close>; a name is a
  non-empty string that is not the name of a member of \<^verbatim>\<open>Object.prototype\<close>, for
  which \<^verbatim>\<open>getHooks\<close> would find the inherited member and not a list), with \<open>hs\<close> the
  resolved list: the call is the asynchronous dispatch over \<open>hs\<close> and returns a promise.
  Over the empty list the promise is fulfilled with \<^verbatim>\<open>undefined\<close>; when the hooks
  \<open>pre\<close> have all succeeded and the next hook \<open>h\<close> returns a value or a promise that is
  fulfilled, the dispatch over \<open>pre @ [h]\<close> is fulfilled with \<^verbatim>\<open>undefined\<close>; when
  \<open>h\<close> throws or rejects with \<open>e\<close>, the dispatch over \<open>pre @ h # post\<close> is rejected
  with \<open>e\<close>, in the state that the call of \<open>h\<close> left, and the calls made are those of
  \<open>pre\<close> and \<open>h\<close>: no hook of \<open>post\<close> runs. A fulfilled dispatch has called every
  hook of the list, in order.
\<close>

theorem runHooks_asynchronous_fail_fast:
  assumes "\<not> falsy hooks" and "resolve this hooks = (ht, hs)" and "\<not> is_sync ht"
    and "\<forall>T. ht = Some T \<longrightarrow> \<not> inheritedKey T"
  shows "runHooks cbs this hooks args s = dispatch cbs this ht hs args s \<and>
         (\<exists>p s'. dispatch cbs this ht hs args s = (ReturnsPromise p, s')) \<and>
         dispatch cbs this ht [] args s = (ReturnsPromise (Fulfilled ()), s) \<and>
         (\<forall>pre h out s1 s2.
            dispatch cbs this ht pre args s = (ReturnsPromise (Fulfilled ()), s1) \<and>
            apply_hook cbs this args h s1 = (out, s2) \<and> (out = Returns \<or> out = Resolves) \<longrightarrow>
            dispatch cbs this ht (pre @ [h]) args s = (ReturnsPromise (Fulfilled ()), s2)) \<and>
         (\<forall>pre h post out e s1 s2.
            dispatch cbs this ht pre args s = (ReturnsPromise (Fulfilled ()), s1) \<and>
            apply_hook cbs this args h s1 = (out, s2) \<and> (out = Throws e \<or> out = Rejects e) \<longrightarrow>
            dispatch cbs this ht (pre @ h # post) args s = (ReturnsPromise (Rejected e), s2) \<and>
            invoked s2 = invoked s @ map (call_of this args) (pre @ [h])) \<and>
         (\<forall>s'. dispatch cbs this ht hs args s = (ReturnsPromise (Fulfilled ()), s') \<longrightarrow>
            invoked s' = invoked s @ map (call_of this args) hs)"
proof -
  note async = assms(3)
  have p0: "runHooks cbs this hooks args s = dispatch cbs this ht hs args s"
    by (rule runHooks_dispatch [OF assms(1,2)])
  have p1: "\<exists>p s'. dispatch cbs this ht hs args s = (ReturnsPromise p, s')"
    using async by (simp add: dispatch_def split: prod.splits)
  have p2: "dispatch cbs this ht [] args s = (ReturnsPromise (Fulfilled ()), s)"
    using async by (simp add: dispatch_def)
  have p3: "dispatch cbs this ht (pre @ [h]) args s = (ReturnsPromise (Fulfilled ()), s2)"
    if "dispatch cbs this ht pre args s = (ReturnsPromise (Fulfilled ()), s1)"
      and "apply_hook cbs this args h s1 = (out, s2)" and "out = Returns \<or> out = Resolves"
    for pre h out s1 s2
    using that Promise_each_snoc_ok [of "apply_hook cbs this args" pre s pre s1 h out s2]
    by (simp add: dispatch_async_fulfilled [OF async])
  have p4: "dispatch cbs this ht (pre @ h # post) args s = (ReturnsPromise (Rejected e), s2) \<and>
            invoked s2 = invoked s @ map (call_of this args) (pre @ [h])"
    if pre: "dispatch cbs this ht pre args s = (ReturnsPromise (Fulfilled ()), s1)"
      and h: "apply_hook cbs this args h s1 = (out, s2)"
      and out: "out = Throws e \<or> out = Rejects e"
    for pre h post out e s1 s2
  proof -
    from pre have run: "Promise_each (apply_hook cbs this args) pre s = (Fulfilled pre, s1)"
      by (simp add: dispatch_async_fulfilled [OF async])
    from Promise_each_fail [OF run h out, of post]
    have "dispatch cbs this ht (pre @ h # post) args s = (ReturnsPromise (Rejected e), s2)"
      by (simp add: dispatch_async_rejected [OF async])
    moreover from Promise_each_invoked [OF run]
    have "invoked s1 = invoked s @ map (call_of this args) pre" by auto
    with apply_hook_invoked [OF h]
    have "invoked s2 = invoked s @ map (call_of this args) (pre @ [h])" by simp
    ultimately show ?thesis by simp
  qed
  have p5: "invoked s' = invoked s @ map (call_of this args) hs"
    if "dispatch cbs this ht hs args s = (ReturnsPromise (Fulfilled ()), s')" for s'
    using dispatch_invoked [OF that] by auto
  show ?thesis using p0 p1 p2 p3 p4 p5 by blast
qed

text \<open>
  Three hooks of the asynchronous type \<^verbatim>\<open>beforeCreate\<close>, the second of which rejects:
  the first two are called, the third is not, and the promise is rejected with the
  failure of the second.
\<close>

theorem runHooks_asynchronous_fail_fast_witness:
  "runHooks (\<lambda>f this args w. (if f = 2 then Rejects (Error ''second'') else Resolves, f # w))
     (Host (Some [''beforeCreate'' \<mapsto> [Bare 1, Named ''two'' 2, Bare 3]]) None)
     (HookType ''beforeCreate'') [''instance''] (RunState [] [])
   = (ReturnsPromise (Rejected (Error ''second'')),
      RunState
        [(1, Host (Some [''beforeCreate'' \<mapsto> [Bare 1, Named ''two'' 2, Bare 3]]) None,
          [''instance'']),
         (2, Host (Some [''beforeCreate'' \<mapsto> [Bare 1, Named ''two'' 2, Bare 3]]) None,
          [''instance''])]
        [2, 1])"
proof -
  let ?cbs = "\<lambda>f (this :: host) (args :: string list) (w :: nat list).
                (if f = 2 then Rejects (Error ''second'') else Resolves, f # w)"
  let ?T = "''beforeCreate''"
  let ?h = "Host (Some [?T \<mapsto> [Bare 1, Named ''two'' 2, Bare 3]]) None"
  let ?hooks = "HookType ?T"
  let ?s = "RunState [] [] :: (string, nat list) run_state"
  let ?s1 = "RunState [(1, ?h, [''instance''])] [1] :: (string, nat list) run_state"
  let ?s2 = "RunState [(1, ?h, [''instance'']), (2, ?h, [''instance''])] [2, 1]
               :: (string, nat list) run_state"
  have d: "hookTypes ?T = Some (desc 2)" by code_simp
  have f: "\<not> falsy ?hooks" by simp
  have r: "resolve ?h ?hooks = (Some ?T, ([] @ [Bare 1]) @ Named ''two'' 2 # [Bare 3])"
    by (simp add: getHooks_def)
  have a: "\<not> is_sync (Some ?T)" by (simp add: is_sync_def d desc_def)
  have k: "\<forall>T. Some ?T = Some T \<longrightarrow> \<not> inheritedKey T" by (simp add: inheritedKey_def)
  note inst = runHooks_asynchronous_fail_fast [OF f r a k, of ?cbs "[''instance'']" ?s]
  from inst
  have empty: "dispatch ?cbs ?h (Some ?T) [] [''instance''] ?s = (ReturnsPromise (Fulfilled ()), ?s)"
    by blast
  have h1: "apply_hook ?cbs ?h [''instance''] (Bare 1) ?s = (Resolves, ?s1)"
    by (simp add: apply_hook_def)
  from inst empty h1
  have pre: "dispatch ?cbs ?h (Some ?T) ([] @ [Bare 1]) [''instance''] ?s
               = (ReturnsPromise (Fulfilled ()), ?s1)"
    by blast
  have h2: "apply_hook ?cbs ?h [''instance''] (Named ''two'' 2) ?s1
              = (Rejects (Error ''second''), ?s2)"
    by (simp add: apply_hook_def)
  from inst pre h2
  have "dispatch ?cbs ?h (Some ?T) (([] @ [Bare 1]) @ Named ''two'' 2 # [Bare 3])
          [''instance''] ?s
          = (ReturnsPromise (Rejected (Error ''second'')), ?s2)"
    by blast
  with inst show ?thesis by simp
qed

text \<open>
  C4. For every host and every hook type name \<open>T\<close> (a non-empty string that is not the
  name of a member of \<^verbatim>\<open>Object.prototype\<close>), \<^verbatim>\<open>runHooks(T)\<close> dispatches over the
  host's own list for \<open>T\<close> followed by the parent's list for \<open>T\<close> when the host has a
  parent. In particular, when the host has no hooks for \<open>T\<close> and its parent got the
  hooks \<open>f1\<close> and then \<open>f2\<close> registered for \<open>T\<close>, the dispatch is over those two
  hooks in that order: the calls made are \<open>f1\<close> and then \<open>f2\<close>, on the host, or the
  first of them or none when the dispatch fails before, and both when it completes.
\<close>

theorem runHooks_local_then_parent:
  assumes "T \<noteq> []" and "\<not> inheritedKey T"
  shows "runHooks cbs this (HookType T) args s =
           dispatch cbs this (Some T)
             (getHooks this T @ (case sequelize this of None \<Rightarrow> [] | Some parent \<Rightarrow> getHooks parent T))
             args s \<and>
         (\<forall>parent0 parent1 parent2 f1 f2 c s'.
            getHooks this T = [] \<and> getHooks parent0 T = [] \<and>
            addHook parent0 T None f1 = (Inr (), parent1) \<and>
            addHook parent1 T None f2 = (Inr (), parent2) \<and>
            sequelize this = Some parent2 \<and>
            runHooks cbs this (HookType T) args s = (c, s') \<longrightarrow>
            runHooks cbs this (HookType T) args s
              = dispatch cbs this (Some T) [Bare f1, Bare f2] args s \<and>
            (\<exists>n\<le>2. invoked s' = invoked s @ take n [(f1, this, args), (f2, this, args)] \<and>
               (c = ReturnsUndefined \<or> c = ReturnsPromise (Fulfilled ()) \<longrightarrow> n = 2)))"
proof -
  have r: "resolve this (HookType T) =
             (Some T, getHooks this T @ (case sequelize this of None \<Rightarrow> [] | Some parent \<Rightarrow> getHooks parent T))"
    by (simp split: option.splits)
  have p1: "runHooks cbs this (HookType T) args s =
           dispatch cbs this (Some T)
             (getHooks this T @ (case sequelize this of None \<Rightarrow> [] | Some parent \<Rightarrow> getHooks parent T))
             args s"
    by (rule runHooks_dispatch [OF _ r]) (simp add: assms(1))
  have p2: "runHooks cbs this (HookType T) args s
              = dispatch cbs this (Some T) [Bare f1, Bare f2] args s \<and>
            (\<exists>n\<le>2. invoked s' = invoked s @ take n [(f1, this, args), (f2, this, args)] \<and>
               (c = ReturnsUndefined \<or> c = ReturnsPromise (Fulfilled ()) \<longrightarrow> n = 2))"
    if local: "getHooks this T = []" and p0: "getHooks parent0 T = []"
      and add1: "addHook parent0 T None f1 = (Inr (), parent1)"
      and add2: "addHook parent1 T None f2 = (Inr (), parent2)"
      and parent: "sequelize this = Some parent2"
      and run: "runHooks cbs this (HookType T) args s = (c, s')"
    for parent0 parent1 parent2 f1 f2 c s'
  proof -
    from addHook_success [OF add1] getProxiedHooks_distinct
    have g1: "getHooks parent1 T = getHooks parent0 T @ [Bare f1]"
      by (auto simp: getHooks_set_hooks entry_def)
    from addHook_success [OF add2] getProxiedHooks_distinct
    have g2: "getHooks parent2 T = getHooks parent1 T @ [Bare f2]"
      by (auto simp: getHooks_set_hooks entry_def)
    have eq: "runHooks cbs this (HookType T) args s
              = dispatch cbs this (Some T) [Bare f1, Bare f2] args s"
      using p1 by (simp add: local parent g2 g1 p0)
    have run': "dispatch cbs this (Some T) [Bare f1, Bare f2] args s = (c, s')"
      using run eq by simp
    from dispatch_invoked [OF run']
    obtain n where n: "n \<le> length [Bare f1, Bare f2]"
      "invoked s' = invoked s @ map (call_of this args) (take n [Bare f1, Bare f2])"
      "c = ReturnsUndefined \<or> c = ReturnsPromise (Fulfilled ()) \<longrightarrow>
         n = length [Bare f1, Bare f2]"
      by blast
    have "map (call_of this args) (take n [Bare f1, Bare f2])
            = take n [(f1, this, args), (f2, this, args)]"
      by (simp add: take_map [symmetric] call_of_def)
    with n have "n \<le> 2 \<and> invoked s' = invoked s @ take n [(f1, this, args), (f2, this, args)] \<and>
               (c = ReturnsUndefined \<or> c = ReturnsPromise (Fulfilled ()) \<longrightarrow> n = 2)"
      by simp
    with eq show ?thesis by blast
  qed
  show ?thesis using p1 p2 by blast
qed

text \<open>
  The scenario of the claim: the parent gets two hooks registered under
  \<^verbatim>\<open>beforeCreate\<close>, the host itself has none; both hooks are fulfilled.
\<close>

theorem runHooks_local_then_parent_witness:
  "runHooks (\<lambda>f this args w. (Resolves, f # w))
     (Host (Some Map.empty)
        (Some (Host (Some [''beforeCreate'' \<mapsto> [Bare 1, Bare 2]]) None)))
     (HookType ''beforeCreate'') [''instance''] (RunState [] [])
   = (ReturnsPromise (Fulfilled ()),
      RunState
        [(1, Host (Some Map.empty)
               (Some (Host (Some [''beforeCreate'' \<mapsto> [Bare 1, Bare 2]]) None)), [''instance'']),
         (2, Host (Some Map.empty)
               (Some (Host (Some [''beforeCreate'' \<mapsto> [Bare 1, Bare 2]]) None)), [''instance''])]
        [2, 1])"
proof -
  let ?T = "''beforeCreate''"
  let ?p0 = "Host (Some Map.empty) None"
  let ?p1 = "Host (Some [?T \<mapsto> [Bare 1]]) None"
  let ?p2 = "Host (Some [?T \<mapsto> [Bare 1, Bare 2]]) None"
  let ?h = "Host (Some Map.empty) (Some ?p2)"
  let ?cbs = "\<lambda>f (this :: host) (args :: string list) (w :: nat list). (Resolves, f # w)"
  let ?s = "RunState [] [] :: (string, nat list) run_state"
  have n: "?T \<noteq> []" by simp
  have k: "\<not> inheritedKey ?T" by (simp add: inheritedKey_def)
  have d: "hookTypes ?T = Some (desc 2)" by code_simp
  have add1: "addHook ?p0 ?T None 1 = (Inr (), ?p1)"
    by (simp add: addHook_def getProxiedHooks_def d desc_def getHooks_def set_hooks_def entry_def)
  have add2: "addHook ?p1 ?T None 2 = (Inr (), ?p2)"
    by (simp add: addHook_def getProxiedHooks_def d desc_def getHooks_def set_hooks_def entry_def)
  have l: "getHooks ?h ?T = []" "getHooks ?p0 ?T = []" by (simp_all add: getHooks_def)
  have p: "sequelize ?h = Some ?p2" by simp
  obtain c s' where run: "runHooks ?cbs ?h (HookType ?T) [''instance''] ?s = (c, s')"
    by (cases "runHooks ?cbs ?h (HookType ?T) [''instance''] ?s")
  from runHooks_local_then_parent [OF n k, of ?cbs ?h "[''instance'']" ?s] l add1 add2 p run
  have "runHooks ?cbs ?h (HookType ?T) [''instance''] ?s
          = dispatch ?cbs ?h (Some ?T) [Bare 1, Bare 2] [''instance''] ?s"
    by blast
  then show ?thesis
    by (simp add: dispatch_def is_sync_def d desc_def apply_hook_def)
qed

text \<open>
  C8. For every hook type \<open>T\<close> that the catalog marks \<^verbatim>\<open>sync\<close>, \<^verbatim>\<open>runHooks(T, ...args)\<close>
  is the synchronous dispatch over the resolved list, and returns \<^verbatim>\<open>undefined\<close> or
  throws: never a promise. Over the empty list it returns; when the hooks \<open>pre\<close> have
  run without a throw and the next hook \<open>h\<close> does not throw, whatever it returns (also
  a promise that is rejected), the dispatch over \<open>pre @ [h]\<close> returns; when \<open>h\<close>
  throws \<open>e\<close>, the dispatch over \<open>pre @ h # post\<close> throws \<open>e\<close>, in the state that the
  call of \<open>h\<close> left, and the calls made are those of \<open>pre\<close> and \<open>h\<close>. A dispatch
  that returns has called the callback of every entry, in order, on the host and with
  the arguments.
\<close>

theorem runHooks_synchronous:
  assumes "hookTypes T = Some d" and "sync d"
  shows "runHooks cbs this (HookType T) args s
           = dispatch cbs this (Some T) (snd (resolve this (HookType T))) args s \<and>
         (\<forall>hs c s'. dispatch cbs this (Some T) hs args s = (c, s') \<longrightarrow>
            (c = ReturnsUndefined \<or> (\<exists>e. c = Thrown e)) \<and>
            (c = ReturnsUndefined \<longrightarrow> invoked s' = invoked s @ map (call_of this args) hs)) \<and>
         dispatch cbs this (Some T) [] args s = (ReturnsUndefined, s) \<and>
         (\<forall>pre h out s1 s2.
            dispatch cbs this (Some T) pre args s = (ReturnsUndefined, s1) \<and>
            apply_hook cbs this args h s1 = (out, s2) \<and> (\<forall>e. out \<noteq> Throws e) \<longrightarrow>
            dispatch cbs this (Some T) (pre @ [h]) args s = (ReturnsUndefined, s2)) \<and>
         (\<forall>pre h post e s1 s2.
            dispatch cbs this (Some T) pre args s = (ReturnsUndefined, s1) \<and>
            apply_hook cbs this args h s1 = (Throws e, s2) \<longrightarrow>
            dispatch cbs this (Some T) (pre @ h # post) args s = (Thrown e, s2) \<and>
            invoked s2 = invoked s @ map (call_of this args) (pre @ [h]))"
proof -
  have sync: "is_sync (Some T)" using assms by (simp add: is_sync_def)
  have ne: "T \<noteq> []" using catalog_names [OF assms(1)] by simp
  have p0: "runHooks cbs this (HookType T) args s
           = dispatch cbs this (Some T) (snd (resolve this (HookType T))) args s"
    using ne by (simp add: runHooks_def split: prod.splits)
  have p1: "(c = ReturnsUndefined \<or> (\<exists>e. c = Thrown e)) \<and>
            (c = ReturnsUndefined \<longrightarrow> invoked s' = invoked s @ map (call_of this args) hs)"
    if run: "dispatch cbs this (Some T) hs args s = (c, s')" for hs c s'
  proof -
    from run sync have "c = ReturnsUndefined \<or> (\<exists>e. c = Thrown e)"
      by (auto simp: dispatch_def split: prod.splits sum.splits)
    moreover from dispatch_invoked [OF run]
    have "c = ReturnsUndefined \<longrightarrow> invoked s' = invoked s @ map (call_of this args) hs"
      by auto
    ultimately show ?thesis by simp
  qed
  have p2: "dispatch cbs this (Some T) [] args s = (ReturnsUndefined, s)"
    using sync by (simp add: dispatch_def)
  have p3: "dispatch cbs this (Some T) (pre @ [h]) args s = (ReturnsUndefined, s2)"
    if "dispatch cbs this (Some T) pre args s = (ReturnsUndefined, s1)"
      and "apply_hook cbs this args h s1 = (out, s2)" and "\<forall>e. out \<noteq> Throws e"
    for pre h out s1 s2
    using that run_sync_snoc_ok [of cbs this args pre s s1 h out s2]
    by (simp add: dispatch_sync_returns [OF sync])
  have p4: "dispatch cbs this (Some T) (pre @ h # post) args s = (Thrown e, s2) \<and>
            invoked s2 = invoked s @ map (call_of this args) (pre @ [h])"
    if pre: "dispatch cbs this (Some T) pre args s = (ReturnsUndefined, s1)"
      and h: "apply_hook cbs this args h s1 = (Throws e, s2)"
    for pre h post e s1 s2
  proof -
    from pre have run: "run_sync cbs this args pre s = (Inr (), s1)"
      by (simp add: dispatch_sync_returns [OF sync])
    from run_sync_fail [OF run h, of post]
    have "dispatch cbs this (Some T) (pre @ h # post) args s = (Thrown e, s2)"
      by (simp add: dispatch_sync_throws [OF sync])
    moreover from run_sync_invoked [OF run]
    have "invoked s1 = invoked s @ map (call_of this args) pre" by auto
    with apply_hook_invoked [OF h]
    have "invoked s2 = invoked s @ map (call_of this args) (pre @ [h])" by simp
    ultimately show ?thesis by simp
  qed
  show ?thesis using p0 p1 p2 p3 p4 by blast
qed

text \<open>
  Three hooks of the synchronous type \<^verbatim>\<open>afterInit\<close>: the first returns a promise that
  is rejected, which the loop ignores; the second throws; the third is not called.
\<close>

theorem runHooks_synchronous_witness:
  "runHooks
     (\<lambda>f this args w. (if f = 1 then Rejects (Error ''ignored'')
                         else if f = 2 then Throws (Error ''second'') else Returns, f # w))
     (Host (Some [''afterInit'' \<mapsto> [Bare 1, Bare 2, Bare 3]]) None) (HookType ''afterInit'') [''instance'']
     (RunState [] [])
   = (Thrown (Error ''second''),
      RunState [(1, Host (Some [''afterInit'' \<mapsto> [Bare 1, Bare 2, Bare 3]]) None, [''instance'']),
                (2, Host (Some [''afterInit'' \<mapsto> [Bare 1, Bare 2, Bare 3]]) None, [''instance''])]
        [2, 1])"
proof -
  let ?cbs = "\<lambda>f (this :: host) (args :: string list) (w :: nat list).
                (if f = 1 then Rejects (Error ''ignored'')
                 else if f = 2 then Throws (Error ''second'') else Returns, f # w)"
  let ?h = "Host (Some [''afterInit'' \<mapsto> [Bare 1, Bare 2, Bare 3]]) None"
  let ?T = "''afterInit''"
  let ?s = "RunState [] [] :: (string, nat list) run_state"
  let ?s1 = "RunState [(1, ?h, [''instance''])] [1] :: (string, nat list) run_state"
  let ?s2 = "RunState [(1, ?h, [''instance'']), (2, ?h, [''instance''])] [2, 1] :: (string, nat list) run_state"
  have d: "hookTypes ?T = Some ((desc 1)\<lparr>sync := True, noModel := True\<rparr>)" by code_simp
  have sy: "sync ((desc 1)\<lparr>sync := True, noModel := True\<rparr>)" by simp
  note inst = runHooks_synchronous [OF d sy, of ?cbs ?h "[''instance'']" ?s]
  have r: "snd (resolve ?h (HookType ?T)) = ([] @ [Bare 1]) @ Bare 2 # [Bare 3]"
    by (simp add: getHooks_def)
  from inst have empty: "dispatch ?cbs ?h (Some ?T) [] [''instance''] ?s = (ReturnsUndefined, ?s)"
    by blast
  have h1: "apply_hook ?cbs ?h [''instance''] (Bare 1) ?s = (Rejects (Error ''ignored''), ?s1)"
    by (simp add: apply_hook_def)
  have no: "\<forall>e. Rejects (Error ''ignored'') \<noteq> Throws e" by simp
  from inst empty h1 no
  have pre: "dispatch ?cbs ?h (Some ?T) ([] @ [Bare 1]) [''instance''] ?s = (ReturnsUndefined, ?s1)"
    by blast
  have h2: "apply_hook ?cbs ?h [''instance''] (Bare 2) ?s1 = (Throws (Error ''second''), ?s2)"
    by (simp add: apply_hook_def)
  from inst pre h2
  have "dispatch ?cbs ?h (Some ?T) (([] @ [Bare 1]) @ Bare 2 # [Bare 3]) [''instance''] ?s
          = (Thrown (Error ''second''), ?s2)"
    by blast
  with inst r show ?thesis by simp
qed

text \<open>
  C9. For every host, \<^verbatim>\<open>runHooks\<close> called without its first argument throws the error
  \<^verbatim>\<open>runHooks requires at least 1 argument\<close>, whatever hooks the host and its parent
  hold, and leaves the state as it was: no hook has been looked up or called.
\<close>

theorem runHooks_requires_hooks:
  "runHooks cbs this Undefined args s
     = (Thrown (Error ''runHooks requires at least 1 argument''), s)"
  by (simp add: runHooks_def)

subsection \<open>Bulk setup\<close>

lemma addHook_forEach_getHooks:
  assumes "addHook_forEach K fs this = (Inr (), this')"
  shows "getHooks this' X
           = getHooks this X @ (if X \<in> set (resolved_types K) then map Bare fs else []) \<and>
         sequelize this' = sequelize this"
  using assms
proof (induction fs arbitrary: this)
  case Nil
  then show ?case by simp
next
  case (Cons f fs)
  from Cons.prems obtain this1 where
    add: "addHook this K None f = (Inr (), this1)" and
    rest: "addHook_forEach K fs this1 = (Inr (), this')"
    by (auto split: prod.splits sum.splits)
  from addHook_success [OF add] obtain types where
    types: "getProxiedHooks K = Inr types" and
    g: "getHooks this1 X = getHooks this X @ (if X \<in> set types then [Bare f] else [])" and
    p: "sequelize this1 = sequelize this"
    by (auto simp: getHooks_set_hooks getHooks_def entry_def split: option.splits)
  from Cons.IH [OF rest] g p types show ?case
    by (simp add: resolved_types_def)
qed

lemma setup_each_getHooks:
  assumes "setup_each hooks this = (Inr (), this')"
  shows "getHooks this' X = getHooks this X @ configured hooks X \<and>
         sequelize this' = sequelize this"
  using assms
proof (induction hooks arbitrary: this)
  case Nil
  then show ?case by (simp add: configured_def)
next
  case (Cons kv hooks)
  obtain K v where kv: "kv = (K, v)" by (cases kv)
  from Cons.prems kv obtain this1 where
    first: "addHook_forEach K (hooksArray v) this = (Inr (), this1)" and
    rest: "setup_each hooks this1 = (Inr (), this')"
    by (auto split: prod.splits sum.splits)
  from Cons.IH [OF rest] addHook_forEach_getHooks [OF first, of X] kv show ?case
    by (simp add: configured_def)
qed

text \<open>
  C10. For every host, \<^verbatim>\<open>_setupHooks(config)\<close> assigns an empty store and then runs the
  registrations of \<open>config\<close>; its completion and the host it leaves do not depend on
  the store the host had before (nor on whether it had one). With the empty
  configuration the store is empty afterwards. When the call returns normally, the list
  of every type \<open>X\<close> consists of the callbacks that \<open>config\<close> gives for the names
  that resolve to \<open>X\<close> (\<open>X\<close> itself and the names that have \<open>X\<close> among their
  proxies), as bare entries, in the order of \<open>config\<close>.
\<close>

theorem setupHooks_resets_then_registers:
  "setupHooks (Host before parent) hooks = setupHooks (Host None parent) hooks \<and>
   setupHooks this hooks = setup_each hooks (Host (Some Map.empty) (sequelize this)) \<and>
   setupHooks this [] = (Inr (), Host (Some Map.empty) (sequelize this)) \<and>
   (\<forall>this'. setupHooks this hooks = (Inr (), this') \<longrightarrow>
      sequelize this' = sequelize this \<and> (\<forall>X. getHooks this' X = configured hooks X))"
proof -
  have p1: "setupHooks (Host before parent) hooks = setupHooks (Host None parent) hooks"
    by (simp add: setupHooks_def set_hooks_def)
  have p2: "setupHooks this hooks = setup_each hooks (Host (Some Map.empty) (sequelize this))"
    by (simp add: setupHooks_def set_hooks_def)
  have p3: "setupHooks this [] = (Inr (), Host (Some Map.empty) (sequelize this))"
    by (simp add: setupHooks_def set_hooks_def)
  have p4: "sequelize this' = sequelize this \<and> (\<forall>X. getHooks this' X = configured hooks X)"
    if "setupHooks this hooks = (Inr (), this')" for this'
    using setup_each_getHooks [of hooks "set_hooks this Map.empty" this'] that
    by (simp add: setupHooks_def getHooks_set_hooks)
  show ?thesis using p1 p2 p3 p4 by blast
qed

text \<open>
  A host that has a hook under \<^verbatim>\<open>afterFind\<close> is set up with one callback for
  \<^verbatim>\<open>beforeSave\<close> and two for \<^verbatim>\<open>beforeCreate\<close>.
\<close>

theorem setupHooks_resets_then_registers_witness:
  "setupHooks (Host (Some [''afterFind'' \<mapsto> [Bare 9]]) None)
     [(''beforeSave'', Single 1), (''beforeCreate'', Several [2, 3])]
   = (Inr (),
      Host (Some [''beforeUpdate'' \<mapsto> [Bare 1], ''beforeCreate'' \<mapsto> [Bare 1, Bare 2, Bare 3],
                  ''beforeSave'' \<mapsto> [Bare 1]]) None) \<and>
   getHooks (Host (Some [''beforeUpdate'' \<mapsto> [Bare 1], ''beforeCreate'' \<mapsto> [Bare 1, Bare 2, Bare 3],
                  ''beforeSave'' \<mapsto> [Bare 1]]) None) ''beforeCreate''
     = configured [(''beforeSave'', Single 1), (''beforeCreate'', Several [2, 3])] ''beforeCreate'' \<and>
   configured [(''beforeSave'', Single 1), (''beforeCreate'', Several [2, 3])] ''afterFind'' = []"
proof -
  let ?h = "Host (Some [''afterFind'' \<mapsto> [Bare 9]]) None"
  let ?cfg = "[(''beforeSave'', Single 1), (''beforeCreate'', Several [2, 3])]"
  let ?h' = "Host (Some [''beforeUpdate'' \<mapsto> [Bare 1], ''beforeCreate'' \<mapsto> [Bare 1, Bare 2, Bare 3],
                  ''beforeSave'' \<mapsto> [Bare 1]]) None"
  have d1: "hookTypes ''beforeSave'' =
              Some ((desc 2)\<lparr>proxies := Some [''beforeUpdate'', ''beforeCreate'']\<rparr>)"
    by code_simp
  have d2: "hookTypes ''beforeCreate'' = Some (desc 2)" by code_simp
  note inst = setupHooks_resets_then_registers [of "Some [''afterFind'' \<mapsto> [Bare 9]]" None ?cfg ?h]
  have run: "setup_each ?cfg (Host (Some Map.empty) None) = (Inr (), ?h')"
    by (simp add: addHook_def getProxiedHooks_def d1 d2 desc_def getHooks_def set_hooks_def
        entry_def fun_upd_twist)
  from inst have "setupHooks ?h ?cfg = setup_each ?cfg (Host (Some Map.empty) (sequelize ?h))"
    by blast
  then have res: "setupHooks ?h ?cfg = (Inr (), ?h')" by (simp only: run host.sel)
  with inst have "\<forall>X. getHooks ?h' X = configured ?cfg X" by blast
  then have "getHooks ?h' ''beforeCreate'' = configured ?cfg ''beforeCreate''"
    and "configured ?cfg ''afterFind'' = getHooks ?h' ''afterFind''"
    by simp_all
  moreover have "getHooks ?h' ''afterFind'' = []" by (simp add: getHooks_def)
  ultimately show ?thesis using res by simp
qed

end
